theory Spec2Isabelle
  imports Complex_Main "HOL-Library.Char_ord" "HOL-Library.List_Lexorder" "HOL-Library.Sublist"
begin

chapter \<open>The pipeline scheduler of \<open>debug/scripts/pipeline.py\<close>\<close>

text \<open>
  The development follows the source file function by function: the dependency
  resolution \<open>iterative_topological_sort\<close>, the workspace manager
  \<open>make_working_dir\<close>, the timing store \<open>update_timing\<close> and the engine
  \<open>execute_dask\<close>. Python lists are HOL lists in the same order (the last element
  is the top of a Python stack: \<open>pop()\<close> is \<open>last\<close>/\<open>butlast\<close>, \<open>append\<close> and
  \<open>extend\<close> are \<open>@\<close>). Every exception the code can raise is a value of
  \<open>py_error\<close>. The program comes first, then the notions its properties are stated
  with, then the proofs, component by component.
\<close>

section \<open>The program\<close>

datatype py_error = KeyError | TypeError | FileExistsError | FileNotFoundError | NotADirectoryError

subsection \<open>Dependency resolution\<close>

text \<open>
  The dictionary \<open>graph\<close> maps a node id to the list of ids it depends on. It is an
  association list read through \<open>map_of\<close>; \<open>graph[v]\<close> raises \<open>KeyError\<close> for
  a missing key.
\<close>

type_synonym 'a graph = "('a \<times> 'a list) list"

text \<open>
  The inner loop \<^verbatim>\<open>while stack and v not in graph[stack[-1]]: order.append(stack.pop())\<close>.
\<close>

function unwind :: "'a graph \<Rightarrow> 'a \<Rightarrow> 'a list \<Rightarrow> 'a list \<Rightarrow> py_error + ('a list \<times> 'a list)" where
  "unwind graph v stack order =
     (if stack = [] then Inr (stack, order)
      else case map_of graph (last stack) of
             None \<Rightarrow> Inl KeyError
           | Some ds \<Rightarrow>
               if v \<notin> set ds then unwind graph v (butlast stack) (order @ [last stack])
               else Inr (stack, order))"
  by pat_completeness auto
termination
  by (relation "measure (\<lambda>(graph, v, stack, order). length stack)") auto

declare unwind.simps [simp del]

text \<open>
  The outer loop \<^verbatim>\<open>while q: v = q.pop(); if v not in seen: ...\<close> on the state
  \<open>(seen, stack, order, q)\<close>, returning \<^verbatim>\<open>stack + order[::-1]\<close>.
\<close>

function its_loop :: "'a graph \<Rightarrow> 'a set \<Rightarrow> 'a list \<Rightarrow> 'a list \<Rightarrow> 'a list \<Rightarrow> py_error + 'a list" where
  "its_loop graph seen stack order q =
     (if q = [] then Inr (stack @ rev order)
      else if last q \<notin> seen then
        (case map_of graph (last q) of
           None \<Rightarrow> Inl KeyError
         | Some ds \<Rightarrow>
             (case unwind graph (last q) stack order of
                Inl e \<Rightarrow> Inl e
              | Inr (stack', order') \<Rightarrow>
                  its_loop graph (insert (last q) seen) (stack' @ [last q]) order' (butlast q @ ds)))
      else its_loop graph seen stack order (butlast q))"
  by pat_completeness auto
termination
proof (relation "measures [\<lambda>(graph, seen, stack, order, q). card (fst ` set graph - seen),
                           \<lambda>(graph, seen, stack, order, q). length q]", goal_cases)
  case 1
  show ?case by simp
next
  case (2 graph seen stack order q ds x stack' order')
  from 2(3) have "last q \<in> fst ` set graph"
    by (metis map_of_eq_None_iff option.distinct(1))
  with 2(2) have "card (fst ` set graph - insert (last q) seen) < card (fst ` set graph - seen)"
    by (intro psubset_card_mono) auto
  then show ?case by simp
next
  case (3 graph seen stack order q)
  then show ?case by simp
qed

declare its_loop.simps [simp del]

definition iterative_topological_sort :: "'a graph \<Rightarrow> 'a \<Rightarrow> py_error + 'a list" where
  "iterative_topological_sort graph start = its_loop graph {} [] [] [start]"

text \<open>
  The order the engine walks: \<^verbatim>\<open>topo_order = iterative_topological_sort(graph, key)[::-1]\<close>.
\<close>

definition topo_order :: "'a graph \<Rightarrow> 'a \<Rightarrow> py_error + 'a list" where
  "topo_order graph key = map_sum id rev (iterative_topological_sort graph key)"

subsection \<open>The workspace manager\<close>

text \<open>
  The file system is the list of the paths that exist, each a directory or a plain
  file; the first entry of a path counts (\<open>map_of\<close>). Stage names are plain path
  components: \<open>glob_star\<close> and \<open>path_join\<close> model the library calls for names
  without \<open>/\<close> and without the pattern characters of \<^verbatim>\<open>glob\<close>.
\<close>

datatype kind = Dir | File

type_synonym fs = "(string \<times> kind) list"

text \<open>\<^verbatim>\<open>os.path.join(a, b)\<close> on POSIX.\<close>

definition path_join :: "string \<Rightarrow> string \<Rightarrow> string" where
  "path_join a b =
     (if b \<noteq> [] \<and> hd b = CHR ''/'' then b
      else if a = [] \<or> last a = CHR ''/'' then a @ b
      else a @ ''/'' @ b)"

text \<open>
  \<^verbatim>\<open>glob.glob(pre + "*")\<close>: the existing paths that continue \<open>pre\<close> inside the same
  directory (the star does not match across \<open>/\<close>), each once.
\<close>

definition glob_star :: "fs \<Rightarrow> string \<Rightarrow> string list" where
  "glob_star fs pre =
     remdups (filter (\<lambda>p. prefix pre p \<and> CHR ''/'' \<notin> set (drop (length pre) p)) (map fst fs))"

text \<open>\<^verbatim>\<open>os.path.isdir\<close>, \<^verbatim>\<open>shutil.rmtree\<close> and \<^verbatim>\<open>os.makedirs\<close>.\<close>

definition isdir :: "fs \<Rightarrow> string \<Rightarrow> bool" where
  "isdir fs p = (map_of fs p = Some Dir)"

definition rmtree :: "string \<Rightarrow> fs \<Rightarrow> py_error + fs" where
  "rmtree d fs =
     (case map_of fs d of
        None \<Rightarrow> Inl FileNotFoundError
      | Some File \<Rightarrow> Inl NotADirectoryError
      | Some Dir \<Rightarrow> Inr (filter (\<lambda>(p, k). p \<noteq> d \<and> \<not> prefix (d @ ''/'') p) fs))"

definition makedirs :: "string \<Rightarrow> fs \<Rightarrow> py_error + fs" where
  "makedirs p fs = (if map_of fs p \<noteq> None then Inl FileExistsError else Inr (fs @ [(p, Dir)]))"

text \<open>\<^verbatim>\<open>"{}".format(n)\<close> for an integer \<open>n \<ge> 0\<close>: its decimal digits.\<close>

fun str_nat :: "nat \<Rightarrow> string" where
  "str_nat n =
     (if n < 10 then [char_of (48 + n)]
      else str_nat (n div 10) @ [char_of (48 + n mod 10)])"

declare str_nat.simps [simp del]

text \<open>
  The loop of the clobber branch:
  \<^verbatim>\<open>for dir in previous_working_dirs: if os.path.isdir(most_recent): shutil.rmtree(dir)\<close>.
\<close>

fun remove_previous :: "string \<Rightarrow> string list \<Rightarrow> fs \<Rightarrow> py_error + fs" where
  "remove_previous most_recent [] fs = Inr fs"
| "remove_previous most_recent (d # ds) fs =
     (if isdir fs most_recent then
        (case rmtree d fs of
           Inl e \<Rightarrow> Inl e
         | Inr fs' \<Rightarrow> remove_previous most_recent ds fs')
      else remove_previous most_recent ds fs)"

text \<open>
  \<^verbatim>\<open>previous_working_dirs = sorted(glob.glob(os.path.join(root_working_dir, "{}*".format(name))))\<close>
\<close>

definition previous_working_dirs :: "fs \<Rightarrow> string \<Rightarrow> string \<Rightarrow> string list" where
  "previous_working_dirs fs root_working_dir name = sort (glob_star fs (path_join root_working_dir name))"

text \<open>
  \<open>make_working_dir\<close> returns the path and the file system it leaves. A \<open>do_flag\<close>
  other than 0, 1 and 2 falls off the end of the function, which returns \<open>None\<close>.
\<close>

definition make_working_dir :: "string \<Rightarrow> string \<Rightarrow> int \<Rightarrow> fs \<Rightarrow> py_error + (string option \<times> fs)" where
  "make_working_dir root_working_dir name do_flag fs =
     (let previous = previous_working_dirs fs root_working_dir name;
          working_dir =
            (if length previous = 0 then path_join root_working_dir name
             else path_join root_working_dir (name @ ''_'' @ str_nat (length previous)));
          most_recent = (if length previous = 0 then working_dir else last previous)
      in if do_flag = 0 then Inr (Some most_recent, fs)
         else if do_flag = 1 then
           (case remove_previous most_recent previous fs of
              Inl e \<Rightarrow> Inl e
            | Inr fs' \<Rightarrow>
                (case makedirs (path_join root_working_dir name) fs' of
                   Inl e \<Rightarrow> Inl e
                 | Inr fs'' \<Rightarrow> Inr (Some (path_join root_working_dir name), fs'')))
         else if do_flag = 2 then
           (case makedirs working_dir fs of
              Inl e \<Rightarrow> Inl e
            | Inr fs' \<Rightarrow> Inr (Some working_dir, fs'))
         else Inr (None, fs))"

subsection \<open>The timing store\<close>

text \<open>
  Text is a list of bytes. \<open>is_space\<close> is the ASCII part of what \<^verbatim>\<open>str.strip()\<close>
  removes: tab, line feed, vertical tab, form feed, carriage return, the four
  separators \<open>0x1c\<close> to \<open>0x1f\<close> and the space.
\<close>

definition is_space :: "char \<Rightarrow> bool" where
  "is_space c = (c \<in> {CHR 0x09, CHR 0x0A, CHR 0x0B, CHR 0x0C, CHR 0x0D,
                        CHR 0x1C, CHR 0x1D, CHR 0x1E, CHR 0x1F, CHR '' ''})"

definition strip :: "string \<Rightarrow> string" where
  "strip s = rev (dropWhile is_space (rev (dropWhile is_space s)))"

text \<open>\<^verbatim>\<open>s.split(c)\<close> for a separator of one character, and \<^verbatim>\<open>sep.join(xs)\<close>.\<close>

fun split_on :: "char \<Rightarrow> string \<Rightarrow> string list" where
  "split_on c [] = [[]]"
| "split_on c (x # xs) =
     (if x = c then [] # split_on c xs
      else (case split_on c xs of
              [] \<Rightarrow> [[x]]
            | w # ws \<Rightarrow> (x # w) # ws))"

fun join :: "string \<Rightarrow> string list \<Rightarrow> string" where
  "join sep [] = []"
| "join sep [x] = x"
| "join sep (x # y # ys) = x @ sep @ join sep (y # ys)"

text \<open>
  Reading a file opened in text mode translates \<^verbatim>\<open>\r\n\<close> and \<^verbatim>\<open>\r\<close> to the line
  feed; iterating over it gives its lines. The lines are modelled without their
  terminator, which \<open>update_timing\<close> strips in any case.
\<close>

fun universal_newlines :: "string \<Rightarrow> string" where
  "universal_newlines [] = []"
| "universal_newlines [c] = (if c = CHR 0x0D then [CHR 0x0A] else [c])"
| "universal_newlines (c # d # cs) =
     (if c = CHR 0x0D then
        (if d = CHR 0x0A then CHR 0x0A # universal_newlines cs
         else CHR 0x0A # universal_newlines (d # cs))
      else c # universal_newlines (d # cs))"

definition file_lines :: "string \<Rightarrow> string list" where
  "file_lines txt =
     (let parts = split_on (CHR 0x0A) (universal_newlines txt)
      in if last parts = [] then butlast parts else parts)"

text \<open>
  A Python dictionary keeps its keys in the order of their first insertion:
  \<^verbatim>\<open>d[k] = v\<close> replaces the value in place or appends the pair.
\<close>

fun dict_set :: "'k \<Rightarrow> 'v \<Rightarrow> ('k \<times> 'v) list \<Rightarrow> ('k \<times> 'v) list" where
  "dict_set k v [] = [(k, v)]"
| "dict_set k v (p # ps) = (if fst p = k then (k, v) # ps else p # dict_set k v ps)"

text \<open>
  The loop that reads the timing file:
  \<^verbatim>\<open>if line.strip() == "" or "#" in line: continue\<close>, then
  \<^verbatim>\<open>line = [a.strip() for a in line.strip().split(',')]; timings[line[0]] = line[1:]\<close>.
\<close>

definition read_line :: "string \<Rightarrow> (string \<times> string list) list \<Rightarrow> (string \<times> string list) list" where
  "read_line line timings =
     (if strip line = [] \<or> CHR ''#'' \<in> set line then timings
      else dict_set (hd (map strip (split_on CHR '','' (strip line))))
                    (tl (map strip (split_on CHR '','' (strip line)))) timings)"

definition read_timings :: "string \<Rightarrow> (string \<times> string list) list" where
  "read_timings txt = fold read_line (file_lines txt) []"

text \<open>The line written for one stage: \<^verbatim>\<open>"{},{}\n".format(k, ",".join(t))\<close>.\<close>

definition timing_line :: "string \<times> string list \<Rightarrow> string" where
  "timing_line kt = fst kt @ '','' @ join '','' (snd kt) @ [CHR 0x0A]"

text \<open>
  \<open>update_timing\<close> on the regular files \<open>files\<close> (a path without a file is \<open>None\<close>).
  The parameter \<open>fmt\<close> is \<^verbatim>\<open>"{:.2f}".format\<close>, the rendering of a float with two
  decimal places.
\<close>

definition update_timing ::
  "('t \<Rightarrow> string) \<Rightarrow> string \<Rightarrow> string \<Rightarrow> 't \<Rightarrow> (string \<rightharpoonup> string) \<Rightarrow> (string \<rightharpoonup> string)" where
  "update_timing fmt timing_file name time files =
     (let timings = (case files timing_file of None \<Rightarrow> [] | Some txt \<Rightarrow> read_timings txt);
          timings' = (case map_of timings name of
                        None \<Rightarrow> dict_set name [fmt time] timings
                      | Some t \<Rightarrow> dict_set name (t @ [fmt time]) timings)
      in files(timing_file \<mapsto> concat (map timing_line timings')))"

subsection \<open>The execution engine\<close>

text \<open>
  The clock and the formatting of floats are the platform's: \<open>now\<close> is
  \<^verbatim>\<open>datetime.datetime.now().strftime("%Y-%m-%dT%H:%M:%S")\<close>, \<open>default_timer\<close> is
  \<^verbatim>\<open>timeit.default_timer\<close> and \<open>fmt2f\<close> is \<^verbatim>\<open>"{:.2f}".format\<close>. Both clocks read
  the world \<open>'w\<close> that the stages act on.
\<close>

record 'w platform =
  now :: "'w \<Rightarrow> string"
  default_timer :: "'w \<Rightarrow> real"
  fmt2f :: "real \<Rightarrow> string"

text \<open>
  What the engine does to its surroundings, in order: a \<^verbatim>\<open>state.write\<close>, a
  \<^verbatim>\<open>state.flush\<close>, the call of a stage's runnable.
\<close>

datatype event = Write string | Flush | Invoke string

text \<open>
  The state of a run: the regular files on disk, the text written to the open state
  file and not yet flushed, the world of the stages, and the events so far.
\<close>

record 'w estate =
  files :: "string \<rightharpoonup> string"
  buffer :: string
  world :: 'w
  trace :: "event list"

text \<open>
  A runnable returns \<open>None\<close> (no work was required) or an exit status. The dictionary
  \<open>dsk\<close> maps a stage to its runnable and its dependencies (the tuple
  \<^verbatim>\<open>(runnable, dep, ...)\<close> of the source).
\<close>

type_synonym 'w task = "'w \<Rightarrow> int option \<times> 'w"

type_synonym 'w dask = "(string \<times> ('w task \<times> string list)) list"

text \<open>How a run leaves \<open>execute_dask\<close>: \<^verbatim>\<open>return res\<close>, \<^verbatim>\<open>exit(n)\<close> or an exception.\<close>

datatype 'r outcome = Return 'r | Exit int | Raise py_error

definition state_write :: "string \<Rightarrow> 'w estate \<Rightarrow> 'w estate" where
  "state_write s st = st\<lparr>buffer := buffer st @ s, trace := trace st @ [Write s]\<rparr>"

definition on_disk :: "(string \<rightharpoonup> string) \<Rightarrow> string \<Rightarrow> string" where
  "on_disk fls p = (case fls p of None \<Rightarrow> [] | Some c \<Rightarrow> c)"

definition state_flush :: "string \<Rightarrow> 'w estate \<Rightarrow> 'w estate" where
  "state_flush state_file st =
     st\<lparr>files := (files st)(state_file \<mapsto> on_disk (files st) state_file @ buffer st),
        buffer := [], trace := trace st @ [Flush]\<rparr>"

text \<open>Leaving the \<^verbatim>\<open>with\<close> block closes the file, which writes out what is pending.\<close>

definition state_close :: "string \<Rightarrow> 'w estate \<Rightarrow> 'w estate" where
  "state_close state_file st =
     st\<lparr>files := (files st)(state_file \<mapsto> on_disk (files st) state_file @ buffer st), buffer := []\<rparr>"

text \<open>\<^verbatim>\<open>open(state_file, 'w')\<close> truncates the file.\<close>

definition state_open :: "string \<Rightarrow> 'w estate \<Rightarrow> 'w estate" where
  "state_open state_file st = st\<lparr>files := (files st)(state_file \<mapsto> []), buffer := []\<rparr>"

text \<open>The body of \<^verbatim>\<open>for k in topo_order\<close>, on the dictionary \<open>res\<close> and the state.\<close>

fun run_stages ::
  "'w platform \<Rightarrow> 'w dask \<Rightarrow> string option \<Rightarrow> string \<Rightarrow> string list \<Rightarrow>
   (string \<times> int option) list \<Rightarrow> 'w estate \<Rightarrow> (string \<times> int option) list outcome \<times> 'w estate" where
  "run_stages P dsk timing_file state_file [] res st = (Return res, st)"
| "run_stages P dsk timing_file state_file (k # ks) res st =
     (let st1 = state_flush state_file
                  (state_write (now P (world st) @ '' | START '' @ k @ [CHR 0x0A]) st)
      in case map_of dsk k of
           None \<Rightarrow> (Raise KeyError, st1)
         | Some (runnable, ds) \<Rightarrow>
             (let t0 = default_timer P (world st1);
                  r = fst (runnable (world st1));
                  w = snd (runnable (world st1));
                  st2 = st1\<lparr>world := w, trace := trace st1 @ [Invoke k]\<rparr>;
                  time_to_run = default_timer P w - t0
              in case r of
                   Some code \<Rightarrow>
                     if code = 0 then
                       (let st3 = state_flush state_file
                                    (state_write (now P w @ '' | END '' @ k @ [CHR 0x0A]) st2);
                            st4 = (case timing_file of
                                     None \<Rightarrow> st3
                                   | Some tf \<Rightarrow>
                                       st3\<lparr>files := update_timing (fmt2f P) tf k time_to_run (files st3)\<rparr>)
                        in run_stages P dsk timing_file state_file ks (dict_set k r res) st4)
                     else
                       (Exit 3,
                        state_flush state_file
                          (state_write (now P w @ '' | PIPELINE_FAILURE'' @ [CHR 0x0A])
                             (state_flush state_file
                                (state_write (now P w @ '' | FAIL '' @ k @ [CHR 0x0A]) st2))))
                 | None \<Rightarrow>
                     run_stages P dsk timing_file state_file ks (dict_set k r res)
                       (state_write (now P w @ '' | END_WITHOUT_RUN '' @ k @ [CHR 0x0A]) st2)))"

declare run_stages.simps(2) [simp del]

text \<open>
  \<open>execute_dask\<close>. The graph is \<^verbatim>\<open>{k: v[1:] for k, v in dsk.items()}\<close>; the order is
  resolved before the state file is opened; \<^verbatim>\<open>open(None, 'w')\<close> raises \<open>TypeError\<close>.
\<close>

definition graph_of :: "'w dask \<Rightarrow> string graph" where
  "graph_of dsk = map (\<lambda>(k, v). (k, snd v)) dsk"

text \<open>Entering the \<^verbatim>\<open>with\<close> block: the file is opened and the first entry written.\<close>

definition pipeline_start :: "'w platform \<Rightarrow> string \<Rightarrow> 'w estate \<Rightarrow> 'w estate" where
  "pipeline_start P sf st =
     state_flush sf (state_write (now P (world st) @ '' | START_PIPELINE'' @ [CHR 0x0A]) (state_open sf st))"

definition execute_dask ::
  "'w platform \<Rightarrow> 'w dask \<Rightarrow> string \<Rightarrow> string option \<Rightarrow> string option \<Rightarrow> 'w estate \<Rightarrow>
   (string \<times> int option) list outcome \<times> 'w estate" where
  "execute_dask P dsk key timing_file state_file st =
     (case topo_order (graph_of dsk) key of
        Inl e \<Rightarrow> (Raise e, st)
      | Inr order \<Rightarrow>
          (case state_file of
             None \<Rightarrow> (Raise TypeError, st)
           | Some sf \<Rightarrow>
               (let out = run_stages P dsk timing_file sf order [] (pipeline_start P sf st)
                in case fst out of
                     Return res \<Rightarrow>
                       (Return res,
                        state_close sf
                          (state_flush sf
                             (state_write (now P (world (snd out)) @ '' | PIPELINE_SUCCESS'' @ [CHR 0x0A])
                                (snd out))))
                   | Exit n \<Rightarrow> (Exit n, state_close sf (snd out))
                   | Raise e \<Rightarrow> (Raise e, state_close sf (snd out)))))"

section \<open>Notions the properties are stated with\<close>

subsection \<open>What a resolved order has to satisfy\<close>

text \<open>
  \<open>deps graph\<close> is the dependency relation of the dictionary: \<open>(u, d)\<close> when \<open>d\<close>
  is listed under \<open>u\<close>. A graph is closed when every id referenced as a dependency is
  a key of the dictionary.
\<close>

definition deps :: "'a graph \<Rightarrow> ('a \<times> 'a) set" where
  "deps graph = {(u, d). \<exists>ds. map_of graph u = Some ds \<and> d \<in> set ds}"

definition closed_graph :: "'a graph \<Rightarrow> bool" where
  "closed_graph graph = (\<forall>u d. (u, d) \<in> deps graph \<longrightarrow> d \<in> dom (map_of graph))"

text \<open>\<open>precedes xs a b\<close>: \<open>a\<close> stands at a strictly smaller position of \<open>xs\<close> than \<open>b\<close>.\<close>

definition precedes :: "'a list \<Rightarrow> 'a \<Rightarrow> 'a \<Rightarrow> bool" where
  "precedes xs a b = (\<exists>i j. i < j \<and> j < length xs \<and> xs ! i = a \<and> xs ! j = b)"

text \<open>
  \<open>deps_ok R D xs\<close>: walking \<open>xs\<close> from the left, starting with the set \<open>D\<close> already
  done, every element finds all of its direct dependencies done.
\<close>

fun deps_ok :: "('a \<times> 'a) set \<Rightarrow> 'a set \<Rightarrow> 'a list \<Rightarrow> bool" where
  "deps_ok R D [] = True"
| "deps_ok R D (y # ys) = (R `` {y} \<subseteq> D \<and> deps_ok R (insert y D) ys)"

text \<open>
  The bookkeeping of the loop. The work list \<open>q\<close> splits into one segment for each
  element of \<open>stack\<close>, in the same order; the segment of \<open>p\<close> holds only dependencies
  of \<open>p\<close>, among them every one not yet seen.
\<close>

inductive seg :: "('a \<times> 'a) set \<Rightarrow> 'a set \<Rightarrow> 'a list \<Rightarrow> 'a list \<Rightarrow> bool" for R seen where
  seg_Nil: "seg R seen [] []"
| seg_snoc: "seg R seen st q \<Longrightarrow> set s \<subseteq> R `` {p} \<Longrightarrow> R `` {p} - seen \<subseteq> set s
             \<Longrightarrow> seg R seen (st @ [p]) (q @ s)"

text \<open>The loop invariant of \<open>its_loop\<close> for the target \<open>t\<close>.\<close>

definition its_inv :: "'a graph \<Rightarrow> 'a \<Rightarrow> 'a set \<Rightarrow> 'a list \<Rightarrow> 'a list \<Rightarrow> 'a list \<Rightarrow> bool" where
  "its_inv g t seen stack ord q \<longleftrightarrow>
     seen = set stack \<union> set ord \<and> distinct (stack @ ord) \<and>
     sorted_wrt (\<lambda>a b. (a, b) \<in> (deps g)\<^sup>+) stack \<and>
     deps_ok (deps g) {} ord \<and>
     seg (deps g) seen stack q \<and>
     seen \<subseteq> dom (map_of g) \<and>
     seen \<subseteq> (deps g)\<^sup>* `` {t} \<and> t \<in> seen"

subsection \<open>Reading a trace\<close>

text \<open>
  \<open>written es\<close> is the text of all writes of a trace, \<open>pending p es\<close> the text written
  and not yet flushed after the events \<open>es\<close>, when \<open>p\<close> was pending before them.
\<close>

fun written :: "event list \<Rightarrow> string" where
  "written [] = []"
| "written (Write s # es) = s @ written es"
| "written (Flush # es) = written es"
| "written (Invoke k # es) = written es"

fun pending :: "string \<Rightarrow> event list \<Rightarrow> string" where
  "pending p [] = p"
| "pending p (Write s # es) = pending (p @ s) es"
| "pending p (Flush # es) = pending [] es"
| "pending p (Invoke k # es) = pending p es"

text \<open>The stages a trace invokes, in order.\<close>

fun invoked :: "event list \<Rightarrow> string list" where
  "invoked [] = []"
| "invoked (Write s # es) = invoked es"
| "invoked (Flush # es) = invoked es"
| "invoked (Invoke k # es) = k # invoked es"

text \<open>
  \<open>flushed_at_calls p es\<close>: with \<open>p\<close> pending before the events \<open>es\<close>, nothing is
  pending at any call of a runnable in \<open>es\<close>.
\<close>

fun flushed_at_calls :: "string \<Rightarrow> event list \<Rightarrow> bool" where
  "flushed_at_calls p [] = True"
| "flushed_at_calls p (Write s # es) = flushed_at_calls (p @ s) es"
| "flushed_at_calls p (Flush # es) = flushed_at_calls [] es"
| "flushed_at_calls p (Invoke k # es) = (p = [] \<and> flushed_at_calls p es)"

subsection \<open>One turn of the engine's loop\<close>

text \<open>
  One turn of the loop of \<open>run_stages\<close>, as a function of its own: the result of the
  stage when the loop goes on (\<open>Inl\<close>), or how the run ends (\<open>Inr\<close>).
\<close>

definition stage_step ::
  "'w platform \<Rightarrow> 'w dask \<Rightarrow> string option \<Rightarrow> string \<Rightarrow> string \<Rightarrow> 'w estate \<Rightarrow>
   (int option + (string \<times> int option) list outcome) \<times> 'w estate" where
  "stage_step P dsk timing_file state_file k st =
     (let st1 = state_flush state_file
                  (state_write (now P (world st) @ '' | START '' @ k @ [CHR 0x0A]) st)
      in case map_of dsk k of
           None \<Rightarrow> (Inr (Raise KeyError), st1)
         | Some (runnable, ds) \<Rightarrow>
             (let t0 = default_timer P (world st1);
                  r = fst (runnable (world st1));
                  w = snd (runnable (world st1));
                  st2 = st1\<lparr>world := w, trace := trace st1 @ [Invoke k]\<rparr>;
                  time_to_run = default_timer P w - t0
              in case r of
                   Some code \<Rightarrow>
                     if code = 0 then
                       (let st3 = state_flush state_file
                                    (state_write (now P w @ '' | END '' @ k @ [CHR 0x0A]) st2);
                            st4 = (case timing_file of
                                     None \<Rightarrow> st3
                                   | Some tf \<Rightarrow>
                                       st3\<lparr>files := update_timing (fmt2f P) tf k time_to_run (files st3)\<rparr>)
                        in (Inl r, st4))
                     else
                       (Inr (Exit 3),
                        state_flush state_file
                          (state_write (now P w @ '' | PIPELINE_FAILURE'' @ [CHR 0x0A])
                             (state_flush state_file
                                (state_write (now P w @ '' | FAIL '' @ k @ [CHR 0x0A]) st2))))
                 | None \<Rightarrow>
                     (Inl r, state_write (now P w @ '' | END_WITHOUT_RUN '' @ k @ [CHR 0x0A]) st2)))"

subsection \<open>Reading the timing file\<close>




subsection \<open>A small pipeline to run\<close>

text \<open>
  The world is a counter of hundredths of a second. A stage that succeeds takes one
  second, one that fails takes two, one that is switched off returns \<open>None\<close> at once
  (the \<^verbatim>\<open>lambda *x: None\<close> of the source). \<open>ex_fmt2\<close> writes a duration that is a whole
  number of hundredths with its two decimal places.
\<close>

definition ex_fmt2 :: "real \<Rightarrow> string" where
  "ex_fmt2 x = str_nat (nat \<lfloor>x\<rfloor>) @ ''.'' @ str_nat (nat \<lfloor>x * 10\<rfloor> mod 10)
                 @ str_nat (nat \<lfloor>x * 100\<rfloor> mod 10)"

definition ex_platform :: "nat platform" where
  "ex_platform = \<lparr>now = (\<lambda>w. ''T'' @ str_nat w), default_timer = (\<lambda>w. real w / 100),
                   fmt2f = ex_fmt2\<rparr>"

definition ex_ok :: "nat task" where
  "ex_ok w = (Some 0, w + 100)"

definition ex_fail :: "nat task" where
  "ex_fail w = (Some 2, w + 200)"


definition ex_state :: "(string \<rightharpoonup> string) \<Rightarrow> nat estate" where
  "ex_state fls = \<lparr>files = fls, buffer = [], world = 0, trace = []\<rparr>"


section \<open>Dependency resolution: proofs\<close>

subsection \<open>One iteration of each loop\<close>

lemma unwind_Nil: "unwind g v [] ord = Inr ([], ord)"
  by (simp add: unwind.simps)

lemma unwind_snoc: "unwind g v (st @ [p]) ord =
  (case map_of g p of None \<Rightarrow> Inl KeyError
   | Some ds \<Rightarrow> if v \<notin> set ds then unwind g v st (ord @ [p]) else Inr (st @ [p], ord))"
  by (subst unwind.simps) (simp split: option.split)

lemma its_loop_Nil: "its_loop g seen stack ord [] = Inr (stack @ rev ord)"
  by (simp add: its_loop.simps)

lemma its_loop_snoc: "its_loop g seen stack ord (q @ [v]) =
  (if v \<notin> seen then
     (case map_of g v of None \<Rightarrow> Inl KeyError
      | Some ds \<Rightarrow> (case unwind g v stack ord of Inl e \<Rightarrow> Inl e
          | Inr (stack', ord') \<Rightarrow> its_loop g (insert v seen) (stack' @ [v]) ord' (q @ ds)))
   else its_loop g seen stack ord q)"
  by (subst its_loop.simps) (simp split: option.split sum.split)

subsection \<open>Orders that respect the dependencies\<close>

lemma deps_iff: "(u, d) \<in> deps g \<longleftrightarrow> (\<exists>ds. map_of g u = Some ds \<and> d \<in> set ds)"
  by (simp add: deps_def)

lemma deps_Image: "map_of g v = Some ds \<Longrightarrow> deps g `` {v} = set ds"
  by (auto simp: deps_def)

lemma deps_ok_append: "deps_ok R D (xs @ ys) = (deps_ok R D xs \<and> deps_ok R (D \<union> set xs) ys)"
  by (induction xs arbitrary: D) auto

lemma deps_ok_split: "deps_ok R D xs \<Longrightarrow> xs = ys @ y # zs \<Longrightarrow> R `` {y} \<subseteq> D \<union> set ys"
  by (simp add: deps_ok_append)

lemma deps_ok_closed: "deps_ok R D xs \<Longrightarrow> y \<in> set xs \<Longrightarrow> R `` {y} \<subseteq> D \<union> set xs"
proof -
  assume a: "deps_ok R D xs" and "y \<in> set xs"
  then obtain ys zs where "xs = ys @ y # zs" by (meson split_list)
  with a show ?thesis using deps_ok_split[of R D xs ys y zs] by auto
qed

lemma deps_ok_precedes:
  assumes "deps_ok R {} xs" "u \<in> set xs" "(u, d) \<in> R"
  shows "precedes xs d u"
proof -
  obtain ys zs where xs: "xs = ys @ u # zs" using assms(2) by (meson split_list)
  with assms have "d \<in> set ys" using deps_ok_split[of R "{}" xs ys u zs] by auto
  then obtain i where "i < length ys" "ys ! i = d" by (meson in_set_conv_nth)
  then have "i < length ys \<and> length ys < length xs \<and> xs ! i = d \<and> xs ! length ys = u"
    using xs by (simp add: nth_append)
  then show ?thesis unfolding precedes_def by blast
qed

lemma precedes_in_set: "precedes xs a b \<Longrightarrow> a \<in> set xs \<and> b \<in> set xs"
  unfolding precedes_def by (auto intro: nth_mem)

lemma precedes_trans:
  assumes "distinct xs" "precedes xs a b" "precedes xs b c"
  shows "precedes xs a c"
proof -
  from assms(2) obtain i j where 1: "i < j" "j < length xs" "xs ! i = a" "xs ! j = b"
    unfolding precedes_def by blast
  from assms(3) obtain k l where 2: "k < l" "l < length xs" "xs ! k = b" "xs ! l = c"
    unfolding precedes_def by blast
  have "k < length xs" using 2 by simp
  moreover have "xs ! j = xs ! k" using 1 2 by simp
  ultimately have "j = k" using nth_eq_iff_index_eq[OF assms(1), of j k] 1 by blast
  then have "i < l" using 1 2 by simp
  then show ?thesis unfolding precedes_def using 1 2 by blast
qed

lemma deps_ok_precedes_trancl:
  assumes "deps_ok R {} xs" "distinct xs" "(u, d) \<in> R\<^sup>+" "u \<in> set xs"
  shows "precedes xs d u"
  using assms(3,4)
proof (induction rule: trancl_induct)
  case (base y)
  then show ?case using assms(1) deps_ok_precedes by fastforce
next
  case (step y z)
  then have "precedes xs y u" by simp
  moreover from this have "y \<in> set xs" by (simp add: precedes_in_set)
  then have "precedes xs z y"
    by (rule deps_ok_precedes[OF assms(1) _ step.hyps(2)])
  ultimately show ?case using precedes_trans[OF assms(2)] by blast
qed

subsection \<open>The segments of the work list\<close>

lemma seg_mono: "seg R seen st q \<Longrightarrow> seen \<subseteq> seen' \<Longrightarrow> seg R seen' st q"
proof (induction rule: seg.induct)
  case seg_Nil
  show ?case by (rule seg.seg_Nil)
next
  case (seg_snoc st q s p)
  then show ?case by (intro seg.seg_snoc) auto
qed

lemma seg_pop_seen: "seg R seen st q0 \<Longrightarrow> q0 = q @ [v] \<Longrightarrow> v \<in> seen \<Longrightarrow> seg R seen st q"
proof (induction arbitrary: q rule: seg.induct)
  case seg_Nil
  then show ?case by simp
next
  case (seg_snoc st q' s p)
  show ?case
  proof (cases "s = []")
    case True
    with seg_snoc have "seg R seen st q" by simp
    then have "seg R seen (st @ [p]) (q @ [])"
      using seg_snoc.hyps True by (intro seg.seg_snoc) auto
    then show ?thesis by simp
  next
    case False
    then have "(q' @ butlast s) @ [last s] = q @ [v]"
      using seg_snoc.prems(1) by simp
    then have "q' @ butlast s = q \<and> last s = v"
      by (simp only: append1_eq_conv)
    then have "s = butlast s @ [v] \<and> q = q' @ butlast s"
      using False by auto
    then obtain s' where s: "s = s' @ [v]" "q = q' @ s'" by blast
    have "seg R seen (st @ [p]) (q' @ s')"
      using seg_snoc.hyps s seg_snoc.prems(2) by (intro seg.seg_snoc) auto
    then show ?thesis using s by simp
  qed
qed

lemma seg_pop_unseen:
  "seg R seen st q0 \<Longrightarrow> q0 = q @ [v] \<Longrightarrow> v \<notin> seen \<Longrightarrow>
   \<exists>st1 p st2. st = st1 @ p # st2 \<and> (p, v) \<in> R \<and> (\<forall>y\<in>set st2. R `` {y} \<subseteq> seen)
      \<and> seg R (insert v seen) (st1 @ [p]) q"
proof (induction arbitrary: q rule: seg.induct)
  case seg_Nil
  then show ?case by simp
next
  case (seg_snoc st q' s p)
  show ?case
  proof (cases "s = []")
    case True
    with seg_snoc.prems have "q' = q @ [v]" by simp
    from seg_snoc.IH[OF this seg_snoc.prems(2)] obtain st1 p1 st2 where
      *: "st = st1 @ p1 # st2" "(p1, v) \<in> R" "\<forall>y\<in>set st2. R `` {y} \<subseteq> seen"
         "seg R (insert v seen) (st1 @ [p1]) q" by blast
    have "R `` {p} \<subseteq> seen" using seg_snoc.hyps True by auto
    with *(3) have "\<forall>y\<in>set (st2 @ [p]). R `` {y} \<subseteq> seen" by simp
    with *(1,2,4) have "st @ [p] = st1 @ p1 # (st2 @ [p]) \<and> (p1, v) \<in> R \<and> (\<forall>y\<in>set (st2 @ [p]). R `` {y} \<subseteq> seen)
       \<and> seg R (insert v seen) (st1 @ [p1]) q" by simp
    then show ?thesis by blast
  next
    case False
    then have "(q' @ butlast s) @ [last s] = q @ [v]"
      using seg_snoc.prems(1) by simp
    then have "q' @ butlast s = q \<and> last s = v"
      by (simp only: append1_eq_conv)
    then have "s = butlast s @ [v] \<and> q = q' @ butlast s"
      using False by auto
    then obtain s' where s: "s = s' @ [v]" "q = q' @ s'" by blast
    have "seg R (insert v seen) st q'"
      by (rule seg_mono[OF seg_snoc.hyps(1)]) auto
    then have "seg R (insert v seen) (st @ [p]) (q' @ s')"
      using seg_snoc.hyps s by (intro seg.seg_snoc) auto
    moreover have "(p, v) \<in> R" using seg_snoc.hyps s by auto
    ultimately have "st @ [p] = st @ p # [] \<and> (p, v) \<in> R \<and> (\<forall>y\<in>set []. R `` {y} \<subseteq> seen)
       \<and> seg R (insert v seen) (st @ [p]) q" using s by simp
    then show ?thesis by blast
  qed
qed

lemma seg_empty: "seg R seen st q0 \<Longrightarrow> q0 = [] \<Longrightarrow> \<forall>y\<in>set st. R `` {y} \<subseteq> seen"
  by (induction rule: seg.induct) auto

subsection \<open>The invariant is kept\<close>

lemma unwind_pops:
  assumes "\<forall>y\<in>set st2. \<exists>ds. map_of g y = Some ds \<and> v \<notin> set ds"
      and "map_of g p = Some dp" "v \<in> set dp"
  shows "unwind g v (st1 @ p # st2) ord = Inr (st1 @ [p], ord @ rev st2)"
  using assms(1)
proof (induction st2 arbitrary: ord rule: rev_induct)
  case Nil
  show ?case using unwind_snoc[of g v st1 p ord] assms(2,3) by simp
next
  case (snoc y ys)
  then obtain ds where ds: "map_of g y = Some ds" "v \<notin> set ds" by auto
  have "unwind g v (st1 @ p # ys @ [y]) ord = unwind g v (st1 @ p # ys) (ord @ [y])"
    using unwind_snoc[of g v "st1 @ p # ys" y ord] ds by simp
  also have "\<dots> = Inr (st1 @ [p], (ord @ [y]) @ rev ys)"
    using snoc by simp
  finally show ?case by simp
qed

lemma finish_ok:
  assumes acyc: "acyclic R"
  shows "sorted_wrt (\<lambda>a b. (a, b) \<in> R\<^sup>+) (sa @ sb) \<Longrightarrow> deps_ok R {} ord
     \<Longrightarrow> \<forall>y\<in>set sb. R `` {y} \<subseteq> set sa \<union> set sb \<union> set ord
     \<Longrightarrow> deps_ok R {} (ord @ rev sb)"
proof (induction sb arbitrary: ord rule: rev_induct)
  case Nil
  then show ?case by simp
next
  case (snoc y ys)
  have noloop: "\<And>c. (c, y) \<in> R\<^sup>+ \<Longrightarrow> (y, c) \<notin> R"
    using acyc by (meson acyclic_def trancl_into_trancl)
  have selfless: "(y, y) \<notin> R"
    using acyc by (meson acyclic_def r_into_trancl')
  have before: "\<forall>c \<in> set sa \<union> set ys. (c, y) \<in> R\<^sup>+"
    using snoc.prems(1) by (auto simp: sorted_wrt_append)
  have "R `` {y} \<subseteq> set sa \<union> set (ys @ [y]) \<union> set ord"
    using snoc.prems(3) by simp
  then have y_ok: "R `` {y} \<subseteq> set ord"
    using noloop selfless before by auto
  have 1: "sorted_wrt (\<lambda>a b. (a, b) \<in> R\<^sup>+) (sa @ ys)"
    using snoc.prems(1) by (auto simp: sorted_wrt_append)
  have 2: "deps_ok R {} (ord @ [y])"
    using snoc.prems(2) y_ok by (simp add: deps_ok_append)
  have 3: "\<forall>z\<in>set ys. R `` {z} \<subseteq> set sa \<union> set ys \<union> set (ord @ [y])"
    using snoc.prems(3) by auto
  have "deps_ok R {} ((ord @ [y]) @ rev ys)"
    by (rule snoc.IH[OF 1 2 3])
  then show ?case by simp
qed

lemma inv_step_seen:
  "its_inv g t seen stack ord (q @ [v]) \<Longrightarrow> v \<in> seen \<Longrightarrow> its_inv g t seen stack ord q"
proof -
  assume a: "its_inv g t seen stack ord (q @ [v])" and v: "v \<in> seen"
  from a have "seg (deps g) seen stack (q @ [v])" unfolding its_inv_def by blast
  then have "seg (deps g) seen stack q" by (rule seg_pop_seen[OF _ refl v])
  with a show ?thesis unfolding its_inv_def by blast
qed

lemma inv_step_unseen:
  assumes acyc: "acyclic (deps g)" and cl: "closed_graph g"
      and inv: "its_inv g t seen stack ord (q @ [v])" and v: "v \<notin> seen"
  shows "\<exists>ds stack' ord'. map_of g v = Some ds \<and> unwind g v stack ord = Inr (stack', ord')
           \<and> its_inv g t (insert v seen) (stack' @ [v]) ord' (q @ ds)"
proof -
  let ?R = "deps g"
  from inv have seen: "seen = set stack \<union> set ord" and dist: "distinct (stack @ ord)"
    and path: "sorted_wrt (\<lambda>a b. (a, b) \<in> ?R\<^sup>+) stack" and ordok: "deps_ok ?R {} ord"
    and sg: "seg ?R seen stack (q @ [v])" and dom: "seen \<subseteq> dom (map_of g)"
    and reach: "seen \<subseteq> ?R\<^sup>* `` {t}" and t: "t \<in> seen"
    unfolding its_inv_def by blast+
  from seg_pop_unseen[OF sg refl v] obtain st1 p st2 where
    st: "stack = st1 @ p # st2" and pv: "(p, v) \<in> ?R"
    and fin: "\<forall>y\<in>set st2. ?R `` {y} \<subseteq> seen"
    and sg': "seg ?R (insert v seen) (st1 @ [p]) q" by blast
  from pv obtain dp where dp: "map_of g p = Some dp" "v \<in> set dp" by (auto simp: deps_iff)
  from pv cl obtain ds where ds: "map_of g v = Some ds" unfolding closed_graph_def by blast
  have "\<forall>y\<in>set st2. \<exists>dy. map_of g y = Some dy \<and> v \<notin> set dy"
  proof
    fix y assume y: "y \<in> set st2"
    then have "y \<in> dom (map_of g)" using dom seen st by auto
    then obtain dy where dy: "map_of g y = Some dy" by blast
    have "v \<notin> ?R `` {y}" using fin y v by blast
    then have "v \<notin> set dy" using deps_Image[OF dy] by simp
    with dy show "\<exists>dy. map_of g y = Some dy \<and> v \<notin> set dy" by blast
  qed
  then have uw: "unwind g v stack ord = Inr (st1 @ [p], ord @ rev st2)"
    unfolding st by (rule unwind_pops[OF _ dp])
  have i1: "insert v seen = set ((st1 @ [p]) @ [v]) \<union> set (ord @ rev st2)"
    using seen st by auto
  have i2: "distinct (((st1 @ [p]) @ [v]) @ (ord @ rev st2))"
    using dist st v seen by auto
  have "\<forall>x\<in>set (st1 @ [p]). (x, v) \<in> ?R\<^sup>+"
  proof
    fix x assume "x \<in> set (st1 @ [p])"
    then have "x = p \<or> (x, p) \<in> ?R\<^sup>+" using path st by (auto simp: sorted_wrt_append)
    then show "(x, v) \<in> ?R\<^sup>+" using pv by (auto intro: trancl_into_trancl)
  qed
  moreover have "sorted_wrt (\<lambda>a b. (a, b) \<in> ?R\<^sup>+) (st1 @ [p])"
    using path st by (auto simp: sorted_wrt_append)
  ultimately have i3: "sorted_wrt (\<lambda>a b. (a, b) \<in> ?R\<^sup>+) ((st1 @ [p]) @ [v])"
    by (simp only: sorted_wrt_append) simp
  have "sorted_wrt (\<lambda>a b. (a, b) \<in> ?R\<^sup>+) ((st1 @ [p]) @ st2)" using path st by simp
  moreover have "\<forall>y\<in>set st2. ?R `` {y} \<subseteq> set (st1 @ [p]) \<union> set st2 \<union> set ord"
    using fin seen st by auto
  ultimately have i4: "deps_ok ?R {} (ord @ rev st2)"
    using finish_ok[OF acyc _ ordok] by blast
  have "seg ?R (insert v seen) ((st1 @ [p]) @ [v]) (q @ ds)"
    using sg' deps_Image[OF ds] by (intro seg.seg_snoc) auto
  then have i5: "seg ?R (insert v seen) ((st1 @ [p]) @ [v]) (q @ ds)" .
  have i6: "insert v seen \<subseteq> dom (map_of g)" using dom ds by auto
  have "p \<in> seen" using seen st by simp
  then have "(t, p) \<in> ?R\<^sup>*" using reach by auto
  then have "(t, v) \<in> ?R\<^sup>*" using pv by simp
  then have i7: "insert v seen \<subseteq> ?R\<^sup>* `` {t}" using reach by simp
  have "its_inv g t (insert v seen) ((st1 @ [p]) @ [v]) (ord @ rev st2) (q @ ds)"
    unfolding its_inv_def using i1 i2 i3 i4 i5 i6 i7 t by blast
  with ds uw show ?thesis by blast
qed

lemma inv_final:
  assumes acyc: "acyclic (deps g)" and inv: "its_inv g t seen stack ord []"
  shows "distinct (stack @ rev ord) \<and> set (stack @ rev ord) = (deps g)\<^sup>* `` {t}
         \<and> deps_ok (deps g) {} (rev (stack @ rev ord))"
proof -
  let ?R = "deps g"
  from inv have seen: "seen = set stack \<union> set ord" and dist: "distinct (stack @ ord)"
    and path: "sorted_wrt (\<lambda>a b. (a, b) \<in> ?R\<^sup>+) stack" and ordok: "deps_ok ?R {} ord"
    and sg: "seg ?R seen stack []"
    and reach: "seen \<subseteq> ?R\<^sup>* `` {t}" and t: "t \<in> seen"
    unfolding its_inv_def by blast+
  have fin: "\<forall>y\<in>set stack. ?R `` {y} \<subseteq> seen" using seg_empty[OF sg] by simp
  have closed: "?R `` seen \<subseteq> seen"
  proof
    fix c assume "c \<in> ?R `` seen"
    then obtain y where y: "y \<in> seen" "(y, c) \<in> ?R" by blast
    show "c \<in> seen"
    proof (cases "y \<in> set stack")
      case True
      then show ?thesis using fin y by blast
    next
      case False
      then have "y \<in> set ord" using y seen by simp
      then show ?thesis using deps_ok_closed[OF ordok] y seen by blast
    qed
  qed
  have "\<And>c. (t, c) \<in> ?R\<^sup>* \<Longrightarrow> c \<in> seen"
  proof -
    fix c assume "(t, c) \<in> ?R\<^sup>*"
    then show "c \<in> seen" by (induction rule: rtrancl_induct) (use t closed in auto)
  qed
  then have s: "set (stack @ rev ord) = ?R\<^sup>* `` {t}" using reach seen by auto
  have "deps_ok ?R {} (ord @ rev stack)"
    using finish_ok[OF acyc, of "[]" stack ord] path ordok fin seen by simp
  then show ?thesis using s dist by auto
qed

lemma its_loop_total:
  "acyclic (deps g) \<Longrightarrow> closed_graph g \<Longrightarrow> its_inv g t seen stack ord q \<Longrightarrow>
   \<exists>res. its_loop g seen stack ord q = Inr res \<and> distinct res \<and> set res = (deps g)\<^sup>* `` {t}
        \<and> deps_ok (deps g) {} (rev res)"
proof (induction g seen stack ord q rule: its_loop.induct)
  case (1 g seen stack ord q)
  show ?case
  proof (cases "q = []")
    case True
    then show ?thesis using inv_final[OF "1.prems"(1)] "1.prems"(3) by (simp add: its_loop_Nil)
  next
    case False
    then have q: "q = butlast q @ [last q]" by simp
    show ?thesis
    proof (cases "last q \<in> seen")
      case True
      have "its_inv g t seen stack ord (butlast q)"
        using inv_step_seen[of g t seen stack ord "butlast q" "last q"] "1.prems"(3) q True by simp
      then have "\<exists>res. its_loop g seen stack ord (butlast q) = Inr res \<and> distinct res
          \<and> set res = (deps g)\<^sup>* `` {t} \<and> deps_ok (deps g) {} (rev res)"
        using "1.IH"(2)[OF False] True "1.prems"(1,2) by blast
      moreover have "its_loop g seen stack ord q = its_loop g seen stack ord (butlast q)"
        using its_loop_snoc[of g seen stack ord "butlast q" "last q"] q True by simp
      ultimately show ?thesis by simp
    next
      case unseen: False
      have "its_inv g t seen stack ord (butlast q @ [last q])" using "1.prems"(3) q by simp
      from inv_step_unseen[OF "1.prems"(1,2) this unseen] obtain ds stack' ord' where
        *: "map_of g (last q) = Some ds" "unwind g (last q) stack ord = Inr (stack', ord')"
           "its_inv g t (insert (last q) seen) (stack' @ [last q]) ord' (butlast q @ ds)" by blast
      have "\<exists>res. its_loop g (insert (last q) seen) (stack' @ [last q]) ord' (butlast q @ ds) = Inr res
          \<and> distinct res \<and> set res = (deps g)\<^sup>* `` {t} \<and> deps_ok (deps g) {} (rev res)"
        using "1.IH"(1)[OF False unseen *(1,2) refl "1.prems"(1,2) *(3)] .
      moreover have "its_loop g seen stack ord q
          = its_loop g (insert (last q) seen) (stack' @ [last q]) ord' (butlast q @ ds)"
        using its_loop_snoc[of g seen stack ord "butlast q" "last q"] q unseen * by simp
      ultimately show ?thesis by simp
    qed
  qed
qed

lemma acyclic_rank:
  fixes f :: "'a \<Rightarrow> nat"
  assumes "\<And>u d. (u, d) \<in> R \<Longrightarrow> f d < f u"
  shows "acyclic R"
proof -
  have "R\<inverse> \<subseteq> measure f" using assms by auto
  then have "wf (R\<inverse>)" by (rule wf_subset[OF wf_measure])
  then have "acyclic (R\<inverse>)" by (rule wf_acyclic)
  then show ?thesis by simp
qed

subsection \<open>The resolved order\<close>

text \<open>
  Claim C1. For every acyclic dependency graph in which every referenced dependency
  id is a node, and every target that is a node, resolution returns an order (it raises
  nothing), the order has no repetition, it holds exactly the target and the nodes the
  target transitively depends on, and every node stands strictly after each node it
  transitively depends on.
\<close>

theorem topo_order_correct:
  assumes "acyclic (deps graph)" and "closed_graph graph" and "key \<in> dom (map_of graph)"
  shows "\<exists>ord. topo_order graph key = Inr ord \<and> distinct ord \<and>
           set ord = (deps graph)\<^sup>* `` {key} \<and>
           (\<forall>u d. u \<in> set ord \<and> (u, d) \<in> (deps graph)\<^sup>+ \<longrightarrow> precedes ord d u)"
proof -
  from assms(3) obtain ds where ds: "map_of graph key = Some ds" by blast
  have first: "its_loop graph {} [] [] [key] = its_loop graph {key} [key] [] ds"
    using its_loop_snoc[of graph "{}" "[]" "[]" "[]" key] ds by (simp add: unwind_Nil)
  have "seg (deps graph) {key} ([] @ [key]) ([] @ ds)"
    using deps_Image[OF ds] by (intro seg.intros) auto
  then have "its_inv graph key {key} [key] [] ds"
    unfolding its_inv_def using ds by auto
  from its_loop_total[OF assms(1,2) this] first obtain res where
    res: "its_loop graph {} [] [] [key] = Inr res" "distinct res"
         "set res = (deps graph)\<^sup>* `` {key}" "deps_ok (deps graph) {} (rev res)"
    by auto
  have "topo_order graph key = Inr (rev res)"
    using res(1) by (simp add: topo_order_def iterative_topological_sort_def)
  moreover have "distinct (rev res)" using res(2) by simp
  moreover have "set (rev res) = (deps graph)\<^sup>* `` {key}" using res(3) by simp
  moreover have "\<forall>u d. u \<in> set (rev res) \<and> (u, d) \<in> (deps graph)\<^sup>+ \<longrightarrow> precedes (rev res) d u"
    using deps_ok_precedes_trancl[OF res(4) \<open>distinct (rev res)\<close>] by blast
  ultimately show ?thesis by blast
qed

text \<open>
  A diamond below \<open>t\<close> and a node \<open>u\<close> that depends on \<open>t\<close>: the order is
  \<open>z, y, x, t\<close>, \<open>u\<close> is left out, and \<open>z\<close> comes before \<open>t\<close>.
\<close>

theorem topo_order_correct_witness:
  "acyclic (deps [(''t'', [''x'', ''y'']), (''x'', [''z'']), (''y'', [''z'']), (''z'', []), (''u'', [''t''])])
   \<and> closed_graph [(''t'', [''x'', ''y'']), (''x'', [''z'']), (''y'', [''z'']), (''z'', []), (''u'', [''t''])]
   \<and> ''t'' \<in> dom (map_of [(''t'', [''x'', ''y'']), (''x'', [''z'']), (''y'', [''z'']), (''z'', []), (''u'', [''t''])])
   \<and> topo_order [(''t'', [''x'', ''y'']), (''x'', [''z'']), (''y'', [''z'']), (''z'', []), (''u'', [''t''])] ''t''
       = Inr [''z'', ''y'', ''x'', ''t'']
   \<and> ''u'' \<notin> (deps [(''t'', [''x'', ''y'']), (''x'', [''z'']), (''y'', [''z'']), (''z'', []), (''u'', [''t''])])\<^sup>* `` {''t''}
   \<and> precedes [''z'', ''y'', ''x'', ''t''] ''z'' ''t''"
proof -
  let ?G = "[(''t'', [''x'', ''y'']), (''x'', [''z'']), (''y'', [''z'']), (''z'', []), (''u'', [''t''])] :: string graph"
  have a: "acyclic (deps ?G)"
    by (rule acyclic_rank[where f = "\<lambda>s. if s = ''u'' then 4 else if s = ''t'' then 3 else if s = ''z'' then 0 else 1"])
       (auto simp: deps_def split: if_splits)
  have c: "closed_graph ?G"
    unfolding closed_graph_def by (auto simp: deps_def split: if_splits)
  have k: "''t'' \<in> dom (map_of ?G)" by simp
  have e: "topo_order ?G ''t'' = Inr [''z'', ''y'', ''x'', ''t'']"
    by (simp add: topo_order_def iterative_topological_sort_def its_loop.simps unwind.simps)
  have "(''t'', ''x'') \<in> deps ?G" by (simp add: deps_def)
  moreover have "(''x'', ''z'') \<in> deps ?G" by (simp add: deps_def)
  ultimately have tz: "(''t'', ''z'') \<in> (deps ?G)\<^sup>+"
    by (rule trancl.intros(2)[OF trancl.intros(1)])
  from topo_order_correct[OF a c k] obtain ord where
    o: "topo_order ?G ''t'' = Inr ord" "set ord = (deps ?G)\<^sup>* `` {''t''}"
       "\<forall>u d. u \<in> set ord \<and> (u, d) \<in> (deps ?G)\<^sup>+ \<longrightarrow> precedes ord d u"
    by blast
  from o(1) e have ord: "ord = [''z'', ''y'', ''x'', ''t'']" by simp
  have "''u'' \<notin> set ord" by (simp add: ord)
  then have nu: "''u'' \<notin> (deps ?G)\<^sup>* `` {''t''}" using o(2) by simp
  have "''t'' \<in> set ord" by (simp add: ord)
  then have "precedes ord ''z'' ''t''" using o(3) tz by blast
  then have p: "precedes [''z'', ''y'', ''x'', ''t''] ''z'' ''t''" by (simp only: ord)
  from a c k e nu p show ?thesis by blast
qed

text \<open>
  Claim C4. A target \<open>t\<close> whose dependency list is \<open>[x, y]\<close>, with \<open>x\<close> and \<open>y\<close>
  different nodes that have no dependencies, resolves to exactly \<open>[y, x, t]\<close>: the
  dependency declared last is explored first.
\<close>

theorem topo_order_siblings:
  assumes "map_of graph t = Some [x, y]" and "map_of graph x = Some []"
      and "map_of graph y = Some []" and "x \<noteq> y"
  shows "topo_order graph t = Inr [y, x, t]"
proof -
  have "x \<noteq> t" "y \<noteq> t" using assms by auto
  then show ?thesis using assms
    by (simp add: topo_order_def iterative_topological_sort_def its_loop.simps unwind.simps)
qed

theorem topo_order_siblings_witness:
  "topo_order [(''t'', [''x'', ''y'']), (''x'', []), (''y'', [])] ''t'' = Inr [''y'', ''x'', ''t'']"
  using topo_order_siblings[of "[(''t'', [''x'', ''y'']), (''x'', []), (''y'', [])]" "''t''" "''x''" "''y''"]
  by simp

section \<open>The workspace manager: proofs\<close>

subsection \<open>Library facts\<close>






subsection \<open>Paths and matches\<close>






subsection \<open>The three policies\<close>







subsection \<open>A stage name that is a prefix of another\<close>



subsection \<open>The policies as the specification states them\<close>




text \<open>
  Such a state is reached by the program's own resolutions. Two runs of
  \<open>image_smooth\<close> and \<open>image_smooth_slow\<close> under the versioned policy, then a third
  run that versions the first and clobbers the second, leave the count of matches of
  \<open>image_smooth\<close> at 4 with \<open>image_smooth_4\<close> present; the next versioned resolution
  raises.
\<close>

lemma versioned_collision_reachable:
  "make_working_dir ''/r'' ''image_smooth'' 2 [] = Inr (Some ''/r/image_smooth'', [(''/r/image_smooth'', Dir)])"
  "make_working_dir ''/r'' ''image_smooth_slow'' 2 [(''/r/image_smooth'', Dir)]
     = Inr (Some ''/r/image_smooth_slow'', [(''/r/image_smooth'', Dir), (''/r/image_smooth_slow'', Dir)])"
  "make_working_dir ''/r'' ''image_smooth'' 2 [(''/r/image_smooth'', Dir), (''/r/image_smooth_slow'', Dir)]
     = Inr (Some ''/r/image_smooth_2'',
            [(''/r/image_smooth'', Dir), (''/r/image_smooth_slow'', Dir), (''/r/image_smooth_2'', Dir)])"
  "make_working_dir ''/r'' ''image_smooth_slow'' 2
      [(''/r/image_smooth'', Dir), (''/r/image_smooth_slow'', Dir), (''/r/image_smooth_2'', Dir)]
     = Inr (Some ''/r/image_smooth_slow_1'',
            [(''/r/image_smooth'', Dir), (''/r/image_smooth_slow'', Dir), (''/r/image_smooth_2'', Dir),
             (''/r/image_smooth_slow_1'', Dir)])"
  "make_working_dir ''/r'' ''image_smooth'' 2
      [(''/r/image_smooth'', Dir), (''/r/image_smooth_slow'', Dir), (''/r/image_smooth_2'', Dir),
       (''/r/image_smooth_slow_1'', Dir)]
     = Inr (Some ''/r/image_smooth_4'',
            [(''/r/image_smooth'', Dir), (''/r/image_smooth_slow'', Dir), (''/r/image_smooth_2'', Dir),
             (''/r/image_smooth_slow_1'', Dir), (''/r/image_smooth_4'', Dir)])"
  "make_working_dir ''/r'' ''image_smooth_slow'' 1
      [(''/r/image_smooth'', Dir), (''/r/image_smooth_slow'', Dir), (''/r/image_smooth_2'', Dir),
       (''/r/image_smooth_slow_1'', Dir), (''/r/image_smooth_4'', Dir)]
     = Inr (Some ''/r/image_smooth_slow'',
            [(''/r/image_smooth'', Dir), (''/r/image_smooth_2'', Dir), (''/r/image_smooth_4'', Dir),
             (''/r/image_smooth_slow'', Dir)])"
  "make_working_dir ''/r'' ''image_smooth'' 2
      [(''/r/image_smooth'', Dir), (''/r/image_smooth_2'', Dir), (''/r/image_smooth_4'', Dir),
       (''/r/image_smooth_slow'', Dir)]
     = Inl FileExistsError"
  by code_simp+




section \<open>The execution engine: proofs\<close>

subsection \<open>The loop, one turn at a time\<close>

lemma run_stages_step:
  "run_stages P dsk tf sf (k # ks) res st =
     (case stage_step P dsk tf sf k st of
        (Inl r, st') \<Rightarrow> run_stages P dsk tf sf ks (dict_set k r res) st'
      | (Inr out, st') \<Rightarrow> (out, st'))"
  by (simp add: run_stages.simps(2) stage_step_def Let_def split: option.split prod.split)

lemma stage_step_not_Return: "stage_step P dsk tf sf k st \<noteq> (Inr (Return r), st')"
  by (auto simp: stage_step_def Let_def split: option.split prod.split if_splits)

lemma run_stages_append:
  "run_stages P dsk tf sf (xs @ ys) res st =
     (case run_stages P dsk tf sf xs res st of
        (Return res', st') \<Rightarrow> run_stages P dsk tf sf ys res' st'
      | (Exit n, st') \<Rightarrow> (Exit n, st')
      | (Raise e, st') \<Rightarrow> (Raise e, st'))"
proof (induction xs arbitrary: res st)
  case Nil
  show ?case by simp
next
  case (Cons x xs)
  show ?case
    by (cases "stage_step P dsk tf sf x st" rule: prod.exhaust)
       (auto simp: run_stages_step Cons.IH stage_step_not_Return split: sum.split outcome.split prod.split)
qed

subsection \<open>Traces\<close>

lemma pending_append: "pending p (es @ es') = pending (pending p es) es'"
  by (induction p es rule: pending.induct) auto

lemma written_append: "written (es @ es') = written es @ written es'"
  by (induction es rule: written.induct) auto

lemma invoked_append: "invoked (es @ es') = invoked es @ invoked es'"
  by (induction es rule: invoked.induct) auto

lemma flushed_at_calls_append:
  "flushed_at_calls p (es @ es') = (flushed_at_calls p es \<and> flushed_at_calls (pending p es) es')"
  by (induction p es rule: flushed_at_calls.induct) auto


subsection \<open>The operations on the state file\<close>

lemma update_timing_other: "tf \<noteq> p \<Longrightarrow> update_timing fmt tf k t fls p = fls p"
  by (simp add: update_timing_def Let_def)

lemma state_write_simps:
  "trace (state_write s st) = trace st @ [Write s]"
  "buffer (state_write s st) = buffer st @ s"
  "files (state_write s st) = files st"
  "world (state_write s st) = world st"
  by (simp_all add: state_write_def)

lemma state_flush_simps:
  "trace (state_flush sf st) = trace st @ [Flush]"
  "buffer (state_flush sf st) = []"
  "files (state_flush sf st) = (files st)(sf \<mapsto> on_disk (files st) sf @ buffer st)"
  "world (state_flush sf st) = world st"
  by (simp_all add: state_flush_def)

lemma state_close_simps:
  "trace (state_close sf st) = trace st"
  "buffer (state_close sf st) = []"
  "files (state_close sf st) = (files st)(sf \<mapsto> on_disk (files st) sf @ buffer st)"
  "world (state_close sf st) = world st"
  by (simp_all add: state_close_def)

lemma on_disk_upd: "on_disk (f(p \<mapsto> c)) p = c"
  by (simp add: on_disk_def)

lemma pipeline_start_simps:
  "trace (pipeline_start P sf st) = trace st @ [Write (now P (world st) @ '' | START_PIPELINE'' @ [CHR 0x0A]), Flush]"
  "buffer (pipeline_start P sf st) = []"
  "on_disk (files (pipeline_start P sf st)) sf = now P (world st) @ '' | START_PIPELINE'' @ [CHR 0x0A]"
  "world (pipeline_start P sf st) = world st"
  by (simp_all add: pipeline_start_def state_open_def state_write_simps state_flush_simps on_disk_upd)

subsection \<open>What a run adds to the trace and to the state file\<close>

text \<open>What one turn of the loop adds, case by case.\<close>

lemma stage_step_events:
  assumes "stage_step P dsk tf sf k st = (x, st')"
  shows "\<exists>es. trace st' = trace st @ es \<and> buffer st' = pending (buffer st) es \<and>
           (tf \<noteq> Some sf \<longrightarrow>
              on_disk (files st') sf @ buffer st' = on_disk (files st) sf @ buffer st @ written es) \<and>
           (\<forall>p. flushed_at_calls p es) \<and>
           (\<forall>p out. x = Inr out \<longrightarrow> pending p es = []) \<and>
           set (invoked es) \<subseteq> {k}"
proof (cases "map_of dsk k")
  case None
  let ?es = "[Write (now P (world st) @ '' | START '' @ k @ [CHR 0x0A]), Flush]"
  from None assms have st': "st' = state_flush sf (state_write (now P (world st) @ '' | START '' @ k @ [CHR 0x0A]) st)"
    by (simp add: stage_step_def Let_def)
  have "trace st' = trace st @ ?es \<and> buffer st' = pending (buffer st) ?es \<and>
           (tf \<noteq> Some sf \<longrightarrow>
              on_disk (files st') sf @ buffer st' = on_disk (files st) sf @ buffer st @ written ?es) \<and>
           (\<forall>p. flushed_at_calls p ?es) \<and>
           (\<forall>p out. x = Inr out \<longrightarrow> pending p ?es = []) \<and>
           set (invoked ?es) \<subseteq> {k}"
    unfolding st' by (simp add: state_write_simps state_flush_simps on_disk_upd)
  then show ?thesis by blast
next
  case (Some a)
  obtain f ds where a: "a = (f, ds)" by (cases a)
  obtain r w where fw: "f (world st) = (r, w)" by (cases "f (world st)")
  let ?st1 = "state_flush sf (state_write (now P (world st) @ '' | START '' @ k @ [CHR 0x0A]) st)"
  let ?st2 = "?st1\<lparr>world := w, trace := trace ?st1 @ [Invoke k]\<rparr>"
  have w1: "world ?st1 = world st" by (simp add: state_write_simps state_flush_simps)
  show ?thesis
  proof (cases r)
    case None
    let ?es = "[Write (now P (world st) @ '' | START '' @ k @ [CHR 0x0A]), Flush, Invoke k,
                Write (now P w @ '' | END_WITHOUT_RUN '' @ k @ [CHR 0x0A])]"
    from None Some a fw w1 assms
    have st': "st' = state_write (now P w @ '' | END_WITHOUT_RUN '' @ k @ [CHR 0x0A]) ?st2" and x: "x = Inl r"
      by (simp_all add: stage_step_def Let_def)
    have "trace st' = trace st @ ?es \<and> buffer st' = pending (buffer st) ?es \<and>
           (tf \<noteq> Some sf \<longrightarrow>
              on_disk (files st') sf @ buffer st' = on_disk (files st) sf @ buffer st @ written ?es) \<and>
           (\<forall>p. flushed_at_calls p ?es) \<and>
           (\<forall>p out. x = Inr out \<longrightarrow> pending p ?es = []) \<and>
           set (invoked ?es) \<subseteq> {k}"
      unfolding st' x by (simp add: state_write_simps state_flush_simps on_disk_upd)
    then show ?thesis by blast
  next
    case (Some code)
    note r = Some
    show ?thesis
    proof (cases "code = 0")
      case True
      let ?es = "[Write (now P (world st) @ '' | START '' @ k @ [CHR 0x0A]), Flush, Invoke k,
                  Write (now P w @ '' | END '' @ k @ [CHR 0x0A]), Flush]"
      let ?st3 = "state_flush sf (state_write (now P w @ '' | END '' @ k @ [CHR 0x0A]) ?st2)"
      from True r \<open>map_of dsk k = Some a\<close> a fw w1
      have "stage_step P dsk tf sf k st = (Inl r, (case tf of None \<Rightarrow> ?st3
                | Some t \<Rightarrow> ?st3\<lparr>files := update_timing (fmt2f P) t k (default_timer P w - default_timer P (world st)) (files ?st3)\<rparr>))"
        by (cases tf) (simp_all add: stage_step_def Let_def)
      with assms have st': "st' = (case tf of None \<Rightarrow> ?st3
                | Some t \<Rightarrow> ?st3\<lparr>files := update_timing (fmt2f P) t k (default_timer P w - default_timer P (world st)) (files ?st3)\<rparr>)"
        and x: "x = Inl r"
        by simp_all
      have "trace st' = trace st @ ?es \<and> buffer st' = pending (buffer st) ?es \<and>
           (tf \<noteq> Some sf \<longrightarrow>
              on_disk (files st') sf @ buffer st' = on_disk (files st) sf @ buffer st @ written ?es) \<and>
           (\<forall>p. flushed_at_calls p ?es) \<and>
           (\<forall>p out. x = Inr out \<longrightarrow> pending p ?es = []) \<and>
           set (invoked ?es) \<subseteq> {k}"
        unfolding st' x
        by (cases tf) (simp_all add: state_write_simps state_flush_simps on_disk_upd on_disk_def update_timing_other)
      then show ?thesis by blast
    next
      case False
      let ?es = "[Write (now P (world st) @ '' | START '' @ k @ [CHR 0x0A]), Flush, Invoke k,
                  Write (now P w @ '' | FAIL '' @ k @ [CHR 0x0A]), Flush,
                  Write (now P w @ '' | PIPELINE_FAILURE'' @ [CHR 0x0A]), Flush]"
      from False r \<open>map_of dsk k = Some a\<close> a fw w1 assms
      have st': "st' = state_flush sf (state_write (now P w @ '' | PIPELINE_FAILURE'' @ [CHR 0x0A])
                   (state_flush sf (state_write (now P w @ '' | FAIL '' @ k @ [CHR 0x0A]) ?st2)))"
        by (simp_all add: stage_step_def Let_def)
      have "trace st' = trace st @ ?es \<and> buffer st' = pending (buffer st) ?es \<and>
           (tf \<noteq> Some sf \<longrightarrow>
              on_disk (files st') sf @ buffer st' = on_disk (files st) sf @ buffer st @ written ?es) \<and>
           (\<forall>p. flushed_at_calls p ?es) \<and>
           (\<forall>p out. x = Inr out \<longrightarrow> pending p ?es = []) \<and>
           set (invoked ?es) \<subseteq> {k}"
        unfolding st' by (simp add: state_write_simps state_flush_simps on_disk_upd)
      then show ?thesis by blast
    qed
  qed
qed

lemma run_stages_events:
  "run_stages P dsk tf sf ks res st = (out, st') \<Longrightarrow>
     \<exists>es. trace st' = trace st @ es \<and> buffer st' = pending (buffer st) es \<and>
          (tf \<noteq> Some sf \<longrightarrow>
             on_disk (files st') sf @ buffer st' = on_disk (files st) sf @ buffer st @ written es) \<and>
          (\<forall>p. flushed_at_calls p es) \<and>
          (\<forall>p. (\<forall>r. out \<noteq> Return r) \<longrightarrow> pending p es = []) \<and>
          set (invoked es) \<subseteq> set ks"
proof (induction ks arbitrary: res st)
  case Nil
  then have "trace st' = trace st @ [] \<and> buffer st' = pending (buffer st) [] \<and>
          (tf \<noteq> Some sf \<longrightarrow>
             on_disk (files st') sf @ buffer st' = on_disk (files st) sf @ buffer st @ written []) \<and>
          (\<forall>p. flushed_at_calls p []) \<and>
          (\<forall>p. (\<forall>r. out \<noteq> Return r) \<longrightarrow> pending p [] = []) \<and>
          set (invoked []) \<subseteq> set []" by auto
  then show ?case by blast
next
  case (Cons k ks)
  obtain x stm where step: "stage_step P dsk tf sf k st = (x, stm)"
    by (cases "stage_step P dsk tf sf k st")
  from stage_step_events[OF step] obtain es1 where
    e1: "trace stm = trace st @ es1" "buffer stm = pending (buffer st) es1"
        "tf \<noteq> Some sf \<longrightarrow> on_disk (files stm) sf @ buffer stm = on_disk (files st) sf @ buffer st @ written es1"
        "\<forall>p. flushed_at_calls p es1" "\<forall>p out. x = Inr out \<longrightarrow> pending p es1 = []"
        "set (invoked es1) \<subseteq> {k}"
    by blast
  show ?case
  proof (cases x)
    case (Inr oc)
    with step Cons.prems have o: "out = oc" "st' = stm" by (simp_all add: run_stages_step)
    have "trace st' = trace st @ es1 \<and> buffer st' = pending (buffer st) es1 \<and>
          (tf \<noteq> Some sf \<longrightarrow>
             on_disk (files st') sf @ buffer st' = on_disk (files st) sf @ buffer st @ written es1) \<and>
          (\<forall>p. flushed_at_calls p es1) \<and>
          (\<forall>p. (\<forall>r. out \<noteq> Return r) \<longrightarrow> pending p es1 = []) \<and>
          set (invoked es1) \<subseteq> set (k # ks)"
      using e1 o Inr by auto
    then show ?thesis by blast
  next
    case (Inl r)
    with step Cons.prems have "run_stages P dsk tf sf ks (dict_set k r res) stm = (out, st')"
      by (simp add: run_stages_step)
    from Cons.IH[OF this] obtain es2 where
      e2: "trace st' = trace stm @ es2" "buffer st' = pending (buffer stm) es2"
          "tf \<noteq> Some sf \<longrightarrow> on_disk (files st') sf @ buffer st' = on_disk (files stm) sf @ buffer stm @ written es2"
          "\<forall>p. flushed_at_calls p es2" "\<forall>p. (\<forall>r. out \<noteq> Return r) \<longrightarrow> pending p es2 = []"
          "set (invoked es2) \<subseteq> set ks"
      by blast
    have "trace st' = trace st @ (es1 @ es2) \<and> buffer st' = pending (buffer st) (es1 @ es2) \<and>
          (tf \<noteq> Some sf \<longrightarrow>
             on_disk (files st') sf @ buffer st' = on_disk (files st) sf @ buffer st @ written (es1 @ es2)) \<and>
          (\<forall>p. flushed_at_calls p (es1 @ es2)) \<and>
          (\<forall>p. (\<forall>r. out \<noteq> Return r) \<longrightarrow> pending p (es1 @ es2) = []) \<and>
          set (invoked (es1 @ es2)) \<subseteq> set (k # ks)"
      using e1 e2
      by (auto simp: pending_append written_append invoked_append flushed_at_calls_append)
    then show ?thesis by blast
  qed
qed

lemma execute_dask_unfold:
  assumes "topo_order (graph_of dsk) key = Inr order"
      and "run_stages P dsk tf sf order [] (pipeline_start P sf st) = (out, st2)"
  shows "execute_dask P dsk key tf (Some sf) st =
           (case out of
              Return res \<Rightarrow>
                (Return res,
                 state_close sf (state_flush sf
                   (state_write (now P (world st2) @ '' | PIPELINE_SUCCESS'' @ [CHR 0x0A]) st2)))
            | Exit n \<Rightarrow> (Exit n, state_close sf st2)
            | Raise e \<Rightarrow> (Raise e, state_close sf st2))"
  using assms by (simp add: execute_dask_def Let_def split: outcome.split)

lemma execute_dask_events:
  assumes "topo_order (graph_of dsk) key = Inr order"
  shows "\<exists>out st' es. execute_dask P dsk key tf (Some sf) st = (out, st') \<and>
           trace st' = trace st @ Write (now P (world st) @ '' | START_PIPELINE'' @ [CHR 0x0A]) # Flush # es \<and>
           buffer st' = [] \<and> flushed_at_calls [] es \<and> pending [] es = [] \<and>
           (tf \<noteq> Some sf \<longrightarrow>
              files st' sf = Some ((now P (world st) @ '' | START_PIPELINE'' @ [CHR 0x0A]) @ written es)) \<and>
           set (invoked es) \<subseteq> set order"
proof -
  let ?l = "now P (world st) @ '' | START_PIPELINE'' @ [CHR 0x0A]"
  let ?st0 = "pipeline_start P sf st"
  obtain out st2 where run: "run_stages P dsk tf sf order [] ?st0 = (out, st2)"
    by (cases "run_stages P dsk tf sf order [] ?st0")
  from run_stages_events[OF run] obtain es0 where
    e: "trace st2 = trace ?st0 @ es0" "buffer st2 = pending (buffer ?st0) es0"
       "tf \<noteq> Some sf \<longrightarrow> on_disk (files st2) sf @ buffer st2 = on_disk (files ?st0) sf @ buffer ?st0 @ written es0"
       "\<forall>p. flushed_at_calls p es0" "\<forall>p. (\<forall>r. out \<noteq> Return r) \<longrightarrow> pending p es0 = []"
       "set (invoked es0) \<subseteq> set order"
    by blast
  note ex = execute_dask_unfold[OF assms run]
  show ?thesis
  proof (cases out)
    case (Return res)
    let ?s = "now P (world st2) @ '' | PIPELINE_SUCCESS'' @ [CHR 0x0A]"
    let ?st' = "state_close sf (state_flush sf (state_write ?s st2))"
    have 1: "execute_dask P dsk key tf (Some sf) st = (out, ?st')" using ex Return by simp
    have 2: "trace ?st' = trace st @ Write ?l # Flush # (es0 @ [Write ?s, Flush])"
      using e(1) by (simp add: state_close_simps state_flush_simps state_write_simps pipeline_start_simps)
    have 3: "buffer ?st' = []" by (simp add: state_close_simps)
    have 4: "flushed_at_calls [] (es0 @ [Write ?s, Flush])"
      using e(4) by (simp add: flushed_at_calls_append)
    have 5: "pending [] (es0 @ [Write ?s, Flush]) = []" by (simp add: pending_append)
    have 6: "tf \<noteq> Some sf \<longrightarrow> files ?st' sf = Some (?l @ written (es0 @ [Write ?s, Flush]))"
      using e(3)
      by (simp add: state_close_simps state_flush_simps state_write_simps pipeline_start_simps
            on_disk_upd written_append)
    have 7: "set (invoked (es0 @ [Write ?s, Flush])) \<subseteq> set order"
      using e(6) by (simp add: invoked_append)
    from 1 2 3 4 5 6 7 show ?thesis by blast
  next
    case (Exit n)
    let ?st' = "state_close sf st2"
    have p: "pending [] es0 = []" using e(5) Exit by simp
    then have b: "buffer st2 = []" using e(2) by (simp add: pipeline_start_simps)
    have 1: "execute_dask P dsk key tf (Some sf) st = (out, ?st')" using ex Exit by simp
    have 2: "trace ?st' = trace st @ Write ?l # Flush # es0"
      using e(1) by (simp add: state_close_simps pipeline_start_simps)
    have 3: "buffer ?st' = []" by (simp add: state_close_simps)
    have 6: "tf \<noteq> Some sf \<longrightarrow> files ?st' sf = Some (?l @ written es0)"
      using e(3) b by (simp add: state_close_simps pipeline_start_simps)
    from 1 2 3 e(4) p 6 e(6) show ?thesis by blast
  next
    case (Raise err)
    let ?st' = "state_close sf st2"
    have p: "pending [] es0 = []" using e(5) Raise by simp
    then have b: "buffer st2 = []" using e(2) by (simp add: pipeline_start_simps)
    have 1: "execute_dask P dsk key tf (Some sf) st = (out, ?st')" using ex Raise by simp
    have 2: "trace ?st' = trace st @ Write ?l # Flush # es0"
      using e(1) by (simp add: state_close_simps pipeline_start_simps)
    have 3: "buffer ?st' = []" by (simp add: state_close_simps)
    have 6: "tf \<noteq> Some sf \<longrightarrow> files ?st' sf = Some (?l @ written es0)"
      using e(3) b by (simp add: state_close_simps pipeline_start_simps)
    from 1 2 3 e(4) p 6 e(6) show ?thesis by blast
  qed
qed


subsection \<open>Failure stops the run\<close>

text \<open>
  Claim C2. Let the resolved order be \<open>pre @ k # post\<close>, let the loop over \<open>pre\<close>
  come through (every stage of \<open>pre\<close> returned \<open>None\<close> or 0), and let the runnable of
  \<open>k\<close> return a code other than 0. Then the engine exits with status 3. After the
  entries of \<open>pre\<close> the trace holds the START entry of \<open>k\<close>, its call, the FAIL entry
  and the PIPELINE_FAILURE entry, each write flushed, and nothing else: no stage of
  \<open>post\<close> is called, and the state file is what the stages of \<open>pre\<close> left followed by
  these three entries.
\<close>

theorem fail_fast:
  assumes "topo_order (graph_of dsk) key = Inr (pre @ k # post)"
      and "run_stages P dsk tf sf pre [] (pipeline_start P sf st) = (Return res, st1)"
      and "map_of dsk k = Some (runnable, ds)"
      and "runnable (world st1) = (Some code, w)" and "code \<noteq> 0"
  shows "\<exists>st' es. execute_dask P dsk key tf (Some sf) st = (Exit 3, st') \<and>
           trace st1 = trace st @ es \<and> set (invoked es) \<subseteq> set pre \<and>
           trace st' = trace st1 @
             [Write (now P (world st1) @ '' | START '' @ k @ [CHR 0x0A]), Flush, Invoke k,
              Write (now P w @ '' | FAIL '' @ k @ [CHR 0x0A]), Flush,
              Write (now P w @ '' | PIPELINE_FAILURE'' @ [CHR 0x0A]), Flush] \<and>
           files st' sf = Some (on_disk (files st1) sf @ buffer st1 @
              (now P (world st1) @ '' | START '' @ k @ [CHR 0x0A]) @
              (now P w @ '' | FAIL '' @ k @ [CHR 0x0A]) @
              (now P w @ '' | PIPELINE_FAILURE'' @ [CHR 0x0A])) \<and>
           buffer st' = [] \<and> world st' = w"
proof -
  let ?st0 = "pipeline_start P sf st"
  let ?stF = "state_flush sf (state_write (now P w @ '' | PIPELINE_FAILURE'' @ [CHR 0x0A])
                (state_flush sf (state_write (now P w @ '' | FAIL '' @ k @ [CHR 0x0A])
                  ((state_flush sf (state_write (now P (world st1) @ '' | START '' @ k @ [CHR 0x0A]) st1))
                     \<lparr>world := w, trace := trace (state_flush sf (state_write (now P (world st1) @ '' | START '' @ k @ [CHR 0x0A]) st1)) @ [Invoke k]\<rparr>))))"
  have step: "stage_step P dsk tf sf k st1 = (Inr (Exit 3), ?stF)"
    using assms(3,4,5) by (simp add: stage_step_def Let_def state_write_simps state_flush_simps)
  have "run_stages P dsk tf sf (pre @ k # post) [] ?st0 = run_stages P dsk tf sf (k # post) res st1"
    using assms(2) by (simp add: run_stages_append)
  also have "\<dots> = (Exit 3, ?stF)" using step by (simp add: run_stages_step)
  finally have run: "run_stages P dsk tf sf (pre @ k # post) [] ?st0 = (Exit 3, ?stF)" .
  have 1: "execute_dask P dsk key tf (Some sf) st = (Exit 3, state_close sf ?stF)"
    using execute_dask_unfold[OF assms(1) run] by simp
  from run_stages_events[OF assms(2)] obtain es0 where
    e: "trace st1 = trace ?st0 @ es0" "set (invoked es0) \<subseteq> set pre" by blast
  let ?es = "[Write (now P (world st) @ '' | START_PIPELINE'' @ [CHR 0x0A]), Flush] @ es0"
  have 2: "trace st1 = trace st @ ?es" using e(1) by (simp add: pipeline_start_simps)
  have 3: "set (invoked ?es) \<subseteq> set pre" using e(2) by simp
  have 4: "trace (state_close sf ?stF) = trace st1 @
             [Write (now P (world st1) @ '' | START '' @ k @ [CHR 0x0A]), Flush, Invoke k,
              Write (now P w @ '' | FAIL '' @ k @ [CHR 0x0A]), Flush,
              Write (now P w @ '' | PIPELINE_FAILURE'' @ [CHR 0x0A]), Flush]"
    by (simp add: state_close_simps state_flush_simps state_write_simps)
  have 5: "files (state_close sf ?stF) sf = Some (on_disk (files st1) sf @ buffer st1 @
              (now P (world st1) @ '' | START '' @ k @ [CHR 0x0A]) @
              (now P w @ '' | FAIL '' @ k @ [CHR 0x0A]) @
              (now P w @ '' | PIPELINE_FAILURE'' @ [CHR 0x0A]))"
    by (simp add: state_close_simps state_flush_simps state_write_simps on_disk_upd)
  have 6: "buffer (state_close sf ?stF) = [] \<and> world (state_close sf ?stF) = w"
    by (simp add: state_close_simps state_flush_simps state_write_simps)
  from 1 2 3 4 5 6 show ?thesis by blast
qed

text \<open>
  \<open>z\<close> succeeds, \<open>a\<close> fails and \<open>b\<close> depends on \<open>a\<close>: the run exits with 3, \<open>b\<close> is
  never called and has no entry.
\<close>

theorem fail_fast_witness:
  "topo_order (graph_of [(''z'', (ex_ok, [])), (''a'', (ex_fail, [''z''])), (''b'', (ex_ok, [''a'']))]) ''b''
     = Inr ([''z''] @ ''a'' # [''b'']) \<and>
   execute_dask ex_platform [(''z'', (ex_ok, [])), (''a'', (ex_fail, [''z''])), (''b'', (ex_ok, [''a'']))]
       ''b'' None (Some ''STATE'') (ex_state Map.empty)
     = (Exit 3, snd (execute_dask ex_platform [(''z'', (ex_ok, [])), (''a'', (ex_fail, [''z''])), (''b'', (ex_ok, [''a'']))]
       ''b'' None (Some ''STATE'') (ex_state Map.empty))) \<and>
   files (snd (execute_dask ex_platform [(''z'', (ex_ok, [])), (''a'', (ex_fail, [''z''])), (''b'', (ex_ok, [''a'']))]
       ''b'' None (Some ''STATE'') (ex_state Map.empty))) ''STATE''
     = Some ''T0 | START_PIPELINE\<newline>T0 | START z\<newline>T100 | END z\<newline>T100 | START a\<newline>T300 | FAIL a\<newline>T300 | PIPELINE_FAILURE\<newline>'' \<and>
   invoked (trace (snd (execute_dask ex_platform [(''z'', (ex_ok, [])), (''a'', (ex_fail, [''z''])), (''b'', (ex_ok, [''a'']))]
       ''b'' None (Some ''STATE'') (ex_state Map.empty)))) = [''z'', ''a'']"
proof -
  let ?D = "[(''z'', (ex_ok, [])), (''a'', (ex_fail, [''z''])), (''b'', (ex_ok, [''a'']))]"
  let ?st = "ex_state Map.empty"
  let ?r = "run_stages ex_platform ?D None ''STATE'' [''z''] [] (pipeline_start ex_platform ''STATE'' ?st)"
  have h1: "topo_order (graph_of ?D) ''b'' = Inr ([''z''] @ ''a'' # [''b''])" by code_simp
  have "fst ?r = Return [(''z'', Some 0)]" by code_simp
  then have h2: "?r = (Return [(''z'', Some 0)], snd ?r)" by (metis prod.collapse)
  have h3: "map_of ?D ''a'' = Some (ex_fail, [''z''])" by simp
  have w1: "world (snd ?r) = 100" by code_simp
  have h4: "ex_fail (world (snd ?r)) = (Some 2, 300)" by (simp add: w1 ex_fail_def)
  have t1: "trace (snd ?r) = [Write ''T0 | START_PIPELINE\<newline>'', Flush, Write ''T0 | START z\<newline>'', Flush,
     Invoke ''z'', Write ''T100 | END z\<newline>'', Flush]" by code_simp
  have d1: "on_disk (files (snd ?r)) ''STATE'' = ''T0 | START_PIPELINE\<newline>T0 | START z\<newline>T100 | END z\<newline>''"
    by code_simp
  have b1: "buffer (snd ?r) = []" by code_simp
  have n1: "now ex_platform 100 = ''T100''" "now ex_platform 300 = ''T300''" by code_simp+
  from fail_fast[OF h1 h2 h3 h4] obtain st' where
    s: "execute_dask ex_platform ?D ''b'' None (Some ''STATE'') ?st = (Exit 3, st')"
       "trace st' = trace (snd ?r) @
             [Write (now ex_platform (world (snd ?r)) @ '' | START '' @ ''a'' @ [CHR 0x0A]), Flush, Invoke ''a'',
              Write (now ex_platform 300 @ '' | FAIL '' @ ''a'' @ [CHR 0x0A]), Flush,
              Write (now ex_platform 300 @ '' | PIPELINE_FAILURE'' @ [CHR 0x0A]), Flush]"
       "files st' ''STATE'' = Some (on_disk (files (snd ?r)) ''STATE'' @ buffer (snd ?r) @
              (now ex_platform (world (snd ?r)) @ '' | START '' @ ''a'' @ [CHR 0x0A]) @
              (now ex_platform 300 @ '' | FAIL '' @ ''a'' @ [CHR 0x0A]) @
              (now ex_platform 300 @ '' | PIPELINE_FAILURE'' @ [CHR 0x0A]))"
    by auto
  have e: "snd (execute_dask ex_platform ?D ''b'' None (Some ''STATE'') ?st) = st'" using s(1) by simp
  have "files st' ''STATE'' = Some ''T0 | START_PIPELINE\<newline>T0 | START z\<newline>T100 | END z\<newline>T100 | START a\<newline>T300 | FAIL a\<newline>T300 | PIPELINE_FAILURE\<newline>''"
    using s(3) by (simp add: d1 b1 w1 n1)
  moreover have "invoked (trace st') = [''z'', ''a'']"
    using s(2) by (simp add: t1 invoked_append)
  ultimately show ?thesis using h1 s(1) e by simp
qed

subsection \<open>Every entry is flushed before the next call\<close>



subsection \<open>The state file holds one run\<close>

text \<open>
  Claim C10. When the order resolves and the timing file is another file, a run
  leaves in the state file exactly its own entries, from START_PIPELINE on; what the
  file held before has no effect on the outcome or on the final state, so the entries
  of a prior run are gone.
\<close>

theorem ledger_truncated:
  assumes "topo_order (graph_of dsk) key = Inr order" and "tf \<noteq> Some sf"
  shows "\<exists>out st' es. execute_dask P dsk key tf (Some sf) st = (out, st') \<and>
           trace st' = trace st @ Write (now P (world st) @ '' | START_PIPELINE'' @ [CHR 0x0A]) # Flush # es \<and>
           files st' sf = Some ((now P (world st) @ '' | START_PIPELINE'' @ [CHR 0x0A]) @ written es) \<and>
           (\<forall>old. execute_dask P dsk key tf (Some sf) (st\<lparr>files := (files st)(sf \<mapsto> old)\<rparr>) = (out, st'))"
proof -
  from execute_dask_events[OF assms(1), of P tf sf st] assms(2) obtain out st' es where
    e: "execute_dask P dsk key tf (Some sf) st = (out, st')"
       "trace st' = trace st @ Write (now P (world st) @ '' | START_PIPELINE'' @ [CHR 0x0A]) # Flush # es"
       "files st' sf = Some ((now P (world st) @ '' | START_PIPELINE'' @ [CHR 0x0A]) @ written es)"
    by blast
  have "pipeline_start P sf (st\<lparr>files := (files st)(sf \<mapsto> old)\<rparr>) = pipeline_start P sf st" for old
    by (simp add: pipeline_start_def state_open_def state_write_def state_flush_def on_disk_def)
  then have "execute_dask P dsk key tf (Some sf) (st\<lparr>files := (files st)(sf \<mapsto> old)\<rparr>)
      = execute_dask P dsk key tf (Some sf) st" for old
    using assms(1) by (simp add: execute_dask_def)
  with e show ?thesis by auto
qed

text \<open>A state file left by an earlier run is replaced by the entries of the new one.\<close>

theorem ledger_truncated_witness:
  "topo_order (graph_of [(''a'', (ex_ok, []))]) ''a'' = Inr [''a''] \<and>
   Some ''timing.txt'' \<noteq> Some ''STATE'' \<and>
   files (snd (execute_dask ex_platform [(''a'', (ex_ok, []))] ''a'' (Some ''timing.txt'') (Some ''STATE'')
      (ex_state (Map.empty(''STATE'' \<mapsto> ''T7 | START_PIPELINE\<newline>T7 | PIPELINE_SUCCESS\<newline>''))))) ''STATE''
     = Some ''T0 | START_PIPELINE\<newline>T0 | START a\<newline>T100 | END a\<newline>T100 | PIPELINE_SUCCESS\<newline>''"
proof -
  let ?D = "[(''a'', (ex_ok, []))] :: nat dask"
  let ?old = "''T7 | START_PIPELINE\<newline>T7 | PIPELINE_SUCCESS\<newline>''"
  have h1: "topo_order (graph_of ?D) ''a'' = Inr [''a'']" by code_simp
  have h2: "Some ''timing.txt'' \<noteq> Some ''STATE''" by simp
  from ledger_truncated[OF h1 h2, of ex_platform "ex_state Map.empty"] obtain out st' where
    e: "execute_dask ex_platform ?D ''a'' (Some ''timing.txt'') (Some ''STATE'') (ex_state Map.empty) = (out, st')"
       "\<forall>old. execute_dask ex_platform ?D ''a'' (Some ''timing.txt'') (Some ''STATE'')
                ((ex_state Map.empty)\<lparr>files := (files (ex_state Map.empty))(''STATE'' \<mapsto> old)\<rparr>) = (out, st')"
    by blast
  have "(ex_state Map.empty)\<lparr>files := (files (ex_state Map.empty))(''STATE'' \<mapsto> ?old)\<rparr>
          = (ex_state (Map.empty(''STATE'' \<mapsto> ?old)) :: nat estate)"
    by (simp add: ex_state_def)
  moreover from e(2) have "execute_dask ex_platform ?D ''a'' (Some ''timing.txt'') (Some ''STATE'')
                ((ex_state Map.empty)\<lparr>files := (files (ex_state Map.empty))(''STATE'' \<mapsto> ?old)\<rparr>) = (out, st')"
    by (rule spec)
  ultimately have "execute_dask ex_platform ?D ''a'' (Some ''timing.txt'') (Some ''STATE'') (ex_state (Map.empty(''STATE'' \<mapsto> ?old)))
     = execute_dask ex_platform ?D ''a'' (Some ''timing.txt'') (Some ''STATE'') (ex_state Map.empty)"
    using e(1) by (simp only:)
  moreover have "files (snd (execute_dask ex_platform ?D ''a'' (Some ''timing.txt'') (Some ''STATE'') (ex_state Map.empty))) ''STATE''
     = Some ''T0 | START_PIPELINE\<newline>T0 | START a\<newline>T100 | END a\<newline>T100 | PIPELINE_SUCCESS\<newline>''"
    by code_simp
  ultimately show ?thesis using h1 h2 by simp
qed

section \<open>The timing store: proofs\<close>

subsection \<open>Splitting and stripping\<close>









subsection \<open>The lines of a file\<close>









subsection \<open>Dictionaries\<close>







subsection \<open>What is read is clean\<close>




subsection \<open>What is written is read back\<close>










subsection \<open>One update, and the update of a run\<close>





subsection \<open>The timing file accumulates\<close>



end
